theory Spec2Isabelle
  imports Complex_Main "HOL-Library.Word"
begin

section \<open>Data model of \<open>DB/Common/MemoryTracker.h\<close>\<close>

text \<open>
  \<open>Int64\<close> is a signed 64-bit integer: a 64-bit word whose arithmetic wraps and which is
  compared as a signed number (\<open><s\<close>, that is through \<open>sint\<close>). A \<open>MemoryTracker *\<close> is an
  address or \<open>nullptr\<close> (\<open>None\<close>); the tracker objects live in a store indexed by address,
  so that two trackers may share one \<open>next\<close>. The field \<open>next\<close> is \<open>next_tracker\<close> here, the
  source's name being a keyword of the proof language. \<open>CurrentMetrics::Metric\<close> is an index
  into the metrics registry and \<open>const char *\<close> an optional string. \<open>fault_probability\<close> is
  a \<open>double\<close> that is only stored and compared: a real number here (no NaN). The two
  atomics are plain fields: the calls are taken one at a time.
\<close>

type_synonym Int64 = "64 word"
type_synonym addr = nat
type_synonym Metric = nat

record MemoryTracker =
  amount :: Int64
  peak :: Int64
  limit :: Int64
  fault_probability :: real
  next_tracker :: "addr option"
  metric :: Metric
  description :: "string option"

text \<open>
  The two constructors, \<open>MemoryTracker()\<close> and \<open>MemoryTracker(Int64 limit_)\<close>, with the
  default member initialisers. \<open>CurrentMetrics::MemoryTracking\<close> is an \<open>extern const\<close>
  declared in the header and defined elsewhere, so it is a parameter here.
\<close>

definition MemoryTracker0 :: "Metric \<Rightarrow> MemoryTracker" where
  "MemoryTracker0 MemoryTracking =
     \<lparr>amount = 0, peak = 0, limit = 0, fault_probability = 0, next_tracker = None,
      metric = MemoryTracking, description = None\<rparr>"

definition MemoryTracker1 :: "Metric \<Rightarrow> Int64 \<Rightarrow> MemoryTracker" where
  "MemoryTracker1 MemoryTracking limit' =
     \<lparr>amount = 0, peak = 0, limit = limit', fault_probability = 0, next_tracker = None,
      metric = MemoryTracking, description = None\<rparr>"

definition get :: "MemoryTracker \<Rightarrow> Int64" where
  "get t = amount t"

definition getPeak :: "MemoryTracker \<Rightarrow> Int64" where
  "getPeak t = peak t"

definition setLimit :: "Int64 \<Rightarrow> MemoryTracker \<Rightarrow> MemoryTracker" where
  "setLimit limit' t = t\<lparr>limit := limit'\<rparr>"

definition setFaultProbability :: "real \<Rightarrow> MemoryTracker \<Rightarrow> MemoryTracker" where
  "setFaultProbability v t = t\<lparr>fault_probability := v\<rparr>"

definition setNext :: "addr option \<Rightarrow> MemoryTracker \<Rightarrow> MemoryTracker" where
  "setNext elem t = t\<lparr>next_tracker := elem\<rparr>"

definition setMetric :: "Metric \<Rightarrow> MemoryTracker \<Rightarrow> MemoryTracker" where
  "setMetric metric' t = t\<lparr>metric := metric'\<rparr>"

definition setDescription :: "string option \<Rightarrow> MemoryTracker \<Rightarrow> MemoryTracker" where
  "setDescription description' t = t\<lparr>description := description'\<rparr>"

section \<open>The store of trackers and the random source\<close>

text \<open>
  The program state that \<open>alloc\<close> and \<open>free\<close> work on: the tracker objects by address, and
  how many values the random number generator has handed out. The generator itself is a
  parameter: \<open>drand48 i\<close> is the \<open>i\<close>-th value it returns.
\<close>

record state =
  heap :: "addr \<Rightarrow> MemoryTracker"
  drawn :: nat

type_synonym rng = "nat \<Rightarrow> real"

record BudgetExceeded =
  exc_amount :: Int64
  exc_limit :: Int64
  exc_description :: "string option"

section \<open>\<open>alloc\<close>, \<open>free\<close> and \<open>reset\<close>\<close>

text \<open>
  Modelled from the spec: the counter core of \<open>MemoryTracker::alloc\<close>, whose body is not in
  the header. It adds \<open>size\<close> to \<open>amount\<close> and, if the new amount exceeds \<open>peak\<close>, advances
  \<open>peak\<close> to it (section 4.1).
\<close>

definition account :: "Int64 \<Rightarrow> MemoryTracker \<Rightarrow> MemoryTracker" where
  "account size' t =
     (let will_be = amount t + size'
      in t\<lparr>amount := will_be, peak := (if peak t <s will_be then will_be else peak t)\<rparr>)"

text \<open>
  Modelled from the spec: the condition \<open>MemoryTracker::alloc\<close> raises, with the current
  amount, the limit and the description (sections 4.2 and 6).
\<close>

definition exceeded :: "MemoryTracker \<Rightarrow> BudgetExceeded" where
  "exceeded t = \<lparr>exc_amount = amount t, exc_limit = limit t, exc_description = description t\<rparr>"

text \<open>
  Modelled from the spec: the limit check of \<open>MemoryTracker::alloc\<close> on the tracker as it
  is after the counter update (section 4.2): a positive limit that the amount exceeds.
\<close>

definition over_limit :: "MemoryTracker \<Rightarrow> bool" where
  "over_limit t \<longleftrightarrow> 0 <s limit t \<and> limit t <s amount t"

text \<open>
  Modelled from the spec: limit and fault enforcement of \<open>MemoryTracker::alloc\<close>
  (section 4.2), run after the counter update. With a positive \<open>fault_probability\<close> one
  random value is drawn, and a value below the threshold raises; otherwise the limit is
  checked. The result is the condition to raise, if any, and the number of values drawn so
  far.
\<close>

definition enforce :: "rng \<Rightarrow> nat \<Rightarrow> MemoryTracker \<Rightarrow> BudgetExceeded option \<times> nat" where
  "enforce drand48 n t =
     (if 0 < fault_probability t then
        (if drand48 n < fault_probability t then (Some (exceeded t), Suc n)
         else if over_limit t then (Some (exceeded t), Suc n)
         else (None, Suc n))
      else if over_limit t then (Some (exceeded t), n)
      else (None, n))"

text \<open>
  Modelled from the spec: \<open>MemoryTracker::alloc\<close> (sections 2, 4.1 to 4.3). The tracker
  updates its counters, decides whether to raise, and forwards the same size to \<open>next\<close>
  whatever it decided; the caller sees the condition of the nearest tracker that raised.
  \<open>Inl\<close> is the raised condition. On a chain of \<open>next\<close> links that never reaches
  \<open>nullptr\<close> the call does not return: \<open>None\<close>.
\<close>

partial_function (option) alloc ::
  "rng \<Rightarrow> addr \<Rightarrow> Int64 \<Rightarrow> state \<Rightarrow> ((BudgetExceeded + unit) \<times> state) option" where
  "alloc drand48 this size' s =
     (let t = account size' (heap s this);
          verdict = enforce drand48 (drawn s) t;
          s1 = \<lparr>heap = (heap s)(this := t), drawn = snd verdict\<rparr>
      in case next_tracker t of
           None \<Rightarrow> Some (case fst verdict of Some e \<Rightarrow> Inl e | None \<Rightarrow> Inr (), s1)
         | Some n \<Rightarrow>
             Option.bind (alloc drand48 n size' s1)
               (\<lambda>r. Some (case fst verdict of Some e \<Rightarrow> Inl e | None \<Rightarrow> fst r, snd r)))"

text \<open>
  \<open>MemoryTracker::realloc\<close>, from the header. The difference of the two sizes wraps around
  here; in C++ its overflow is undefined.
\<close>

definition realloc ::
  "rng \<Rightarrow> addr \<Rightarrow> Int64 \<Rightarrow> Int64 \<Rightarrow> state \<Rightarrow> ((BudgetExceeded + unit) \<times> state) option" where
  "realloc drand48 this old_size new_size s = alloc drand48 this (new_size - old_size) s"

text \<open>
  Modelled from the spec: \<open>MemoryTracker::free\<close> (sections 4.1 and 4.3), whose body is not
  in the header: it subtracts \<open>size\<close> from \<open>amount\<close> and forwards to \<open>next\<close>. It checks
  nothing and raises nothing; as for \<open>alloc\<close>, \<open>None\<close> is a call that does not return.
\<close>

partial_function (option) free :: "addr \<Rightarrow> Int64 \<Rightarrow> state \<Rightarrow> state option" where
  "free this size' s =
     (let t = (heap s this)\<lparr>amount := amount (heap s this) - size'\<rparr>;
          s1 = s\<lparr>heap := (heap s)(this := t)\<rparr>
      in case next_tracker t of
           None \<Rightarrow> Some s1
         | Some n \<Rightarrow> free n size' s1)"

text \<open>
  Modelled from the spec: \<open>MemoryTracker::reset\<close> (section 4.1), whose body is not in the
  header: \<open>amount\<close> and \<open>peak\<close> become zero.
\<close>

definition reset :: "MemoryTracker \<Rightarrow> MemoryTracker" where
  "reset t = t\<lparr>amount := 0, peak := 0\<rparr>"

section \<open>The thread's active tracker and \<open>TemporarilyDisableMemoryTracker\<close>\<close>

record TemporarilyDisableMemoryTracker =
  memory_tracker :: "addr option"

text \<open>
  The constructor and the destructor, on the thread-local \<open>current_memory_tracker\<close>: the
  constructor returns the new guard object and the new value of the pointer, the
  destructor the new value of the pointer.
\<close>

definition TemporarilyDisableMemoryTracker_ctor ::
  "addr option \<Rightarrow> TemporarilyDisableMemoryTracker \<times> addr option" where
  "TemporarilyDisableMemoryTracker_ctor current_memory_tracker =
     (\<lparr>memory_tracker = current_memory_tracker\<rparr>, None)"

definition TemporarilyDisableMemoryTracker_dtor ::
  "TemporarilyDisableMemoryTracker \<Rightarrow> addr option \<Rightarrow> addr option" where
  "TemporarilyDisableMemoryTracker_dtor g current_memory_tracker = memory_tracker g"

text \<open>
  The thread as the guard sees it: the thread-local pointer and the guard objects that are
  alive, innermost first (they are automatic variables, so they are destroyed in the
  reverse order of their construction).
\<close>

record thread =
  current_memory_tracker :: "addr option"
  guards :: "TemporarilyDisableMemoryTracker list"

definition enter_guard :: "thread \<Rightarrow> thread" where
  "enter_guard th =
     (let (g, cur) = TemporarilyDisableMemoryTracker_ctor (current_memory_tracker th)
      in \<lparr>current_memory_tracker = cur, guards = g # guards th\<rparr>)"

definition leave_guard :: "thread \<Rightarrow> thread" where
  "leave_guard th =
     (case guards th of
        [] \<Rightarrow> th
      | g # gs \<Rightarrow>
          \<lparr>current_memory_tracker = TemporarilyDisableMemoryTracker_dtor g (current_memory_tracker th), guards = gs\<rparr>)"

text \<open>
  Nested guarded regions: each region constructs a guard and then runs code that leaves the
  pointer at some value \<open>p\<close> before the next region is entered.
\<close>

fun nest :: "addr option list \<Rightarrow> thread \<Rightarrow> thread" where
  "nest [] th = th"
| "nest (p # ps) th = nest ps ((enter_guard th)\<lparr>current_memory_tracker := p\<rparr>)"

section \<open>Chains and sequences of calls\<close>

text \<open>
  \<open>chain h as p\<close>: following \<open>next\<close> from the pointer \<open>p\<close> visits exactly the trackers
  \<open>as\<close> and then reaches \<open>nullptr\<close>. The spec leaves the absence of cycles to the caller;
  this is that discipline.
\<close>

primrec chain :: "(addr \<Rightarrow> MemoryTracker) \<Rightarrow> addr list \<Rightarrow> addr option \<Rightarrow> bool" where
  "chain h [] p \<longleftrightarrow> p = None"
| "chain h (a # as) p \<longleftrightarrow> p = Some a \<and> chain h as (next_tracker (h a))"

text \<open>
  A caller that makes a sequence of \<open>alloc\<close> and \<open>free\<close> calls on one tracker, catches
  each raised condition and goes on. \<open>delta\<close> is what a call adds to the counter.
\<close>

datatype call = Alloc Int64 | Free Int64

fun delta :: "call \<Rightarrow> Int64" where
  "delta (Alloc n) = n"
| "delta (Free n) = - n"

text \<open>The same as an unbounded integer: sizes read as signed numbers, without wrap-around.\<close>

fun idelta :: "call \<Rightarrow> int" where
  "idelta (Alloc n) = sint n"
| "idelta (Free n) = - sint n"

fun perform ::
  "rng \<Rightarrow> addr \<Rightarrow> call \<Rightarrow> state \<Rightarrow> ((BudgetExceeded + unit) \<times> state) option" where
  "perform drand48 this (Alloc n) s = alloc drand48 this n s"
| "perform drand48 this (Free n) s = map_option (\<lambda>s'. (Inr (), s')) (free this n s)"

fun run ::
  "rng \<Rightarrow> addr \<Rightarrow> call list \<Rightarrow> state \<Rightarrow> ((BudgetExceeded + unit) list \<times> state) option" where
  "run drand48 this [] s = Some ([], s)"
| "run drand48 this (c # cs) s =
     Option.bind (perform drand48 this c s)
       (\<lambda>r. map_option (\<lambda>rs. (fst r # fst rs, snd rs)) (run drand48 this cs (snd r)))"

section \<open>The member functions as calls, and the steps of \<open>free\<close>\<close>

text \<open>
  Modelled from the spec: the subtraction that \<open>MemoryTracker::free\<close> does on one tracker
  (section 4.1), one indivisible read-modify-write of the \<open>std::atomic\<close> field \<open>amount\<close>.
  Calls of several threads interleave at these steps.
\<close>

definition fetch_sub :: "addr \<Rightarrow> Int64 \<Rightarrow> (addr \<Rightarrow> MemoryTracker) \<Rightarrow> addr \<Rightarrow> MemoryTracker" where
  "fetch_sub a n h = h(a := (h a)\<lparr>amount := amount (h a) - n\<rparr>)"

text \<open>
  The public member functions of the class as calls on the tracker at \<open>this\<close>, with the
  outcome a caller sees: \<open>Inl\<close> a raised condition, \<open>Inr\<close> a normal return with the value
  returned (\<open>None\<close> for \<open>void\<close>), and no outcome at all for a call that does not return.
\<close>

datatype member =
    alloc_call Int64 | realloc_call Int64 Int64 | free_call Int64 | get_call | getPeak_call
  | setLimit_call Int64 | setFaultProbability_call real | setNext_call "addr option"
  | setMetric_call Metric | setDescription_call "string option" | reset_call

fun invoke ::
  "rng \<Rightarrow> addr \<Rightarrow> member \<Rightarrow> state \<Rightarrow> ((BudgetExceeded + Int64 option) \<times> state) option" where
  "invoke drand48 this (alloc_call n) s =
     map_option (\<lambda>r. (case fst r of Inl e \<Rightarrow> Inl e | Inr _ \<Rightarrow> Inr None, snd r))
       (alloc drand48 this n s)"
| "invoke drand48 this (realloc_call old_size new_size) s =
     map_option (\<lambda>r. (case fst r of Inl e \<Rightarrow> Inl e | Inr _ \<Rightarrow> Inr None, snd r))
       (realloc drand48 this old_size new_size s)"
| "invoke drand48 this (free_call n) s = map_option (\<lambda>s'. (Inr None, s')) (free this n s)"
| "invoke drand48 this get_call s = Some (Inr (Some (get (heap s this))), s)"
| "invoke drand48 this getPeak_call s = Some (Inr (Some (getPeak (heap s this))), s)"
| "invoke drand48 this (setLimit_call l) s =
     Some (Inr None, s\<lparr>heap := (heap s)(this := setLimit l (heap s this))\<rparr>)"
| "invoke drand48 this (setFaultProbability_call v) s =
     Some (Inr None, s\<lparr>heap := (heap s)(this := setFaultProbability v (heap s this))\<rparr>)"
| "invoke drand48 this (setNext_call elem) s =
     Some (Inr None, s\<lparr>heap := (heap s)(this := setNext elem (heap s this))\<rparr>)"
| "invoke drand48 this (setMetric_call m) s =
     Some (Inr None, s\<lparr>heap := (heap s)(this := setMetric m (heap s this))\<rparr>)"
| "invoke drand48 this (setDescription_call d) s =
     Some (Inr None, s\<lparr>heap := (heap s)(this := setDescription d (heap s this))\<rparr>)"
| "invoke drand48 this reset_call s =
     Some (Inr None, s\<lparr>heap := (heap s)(this := reset (heap s this))\<rparr>)"

text \<open>
  A store in which every address holds a default-constructed tracker, and a random source
  that always returns 0.
\<close>

definition default_store :: "Metric \<Rightarrow> addr \<Rightarrow> MemoryTracker" where
  "default_store MemoryTracking a = MemoryTracker0 MemoryTracking"

definition no_faults :: rng where
  "no_faults i = 0"

section \<open>The reentrancy guard\<close>

lemma leave_enter: "leave_guard ((enter_guard th)\<lparr>current_memory_tracker := q\<rparr>) = th"
  by (simp add: leave_guard_def enter_guard_def TemporarilyDisableMemoryTracker_ctor_def TemporarilyDisableMemoryTracker_dtor_def)

lemma nest_snoc:
  "nest (ps @ [p]) th = (enter_guard (nest ps th))\<lparr>current_memory_tracker := p\<rparr>"
  by (induction ps arbitrary: th) simp_all

lemma unwind_nest:
  "k \<le> length ps \<Longrightarrow> (leave_guard ^^ k) (nest ps th) = nest (take (length ps - k) ps) th"
proof (induction k)
  case 0
  show ?case by simp
next
  case (Suc k)
  let ?m = "length ps - Suc k"
  from Suc.prems have lt: "?m < length ps" and eq: "length ps - k = Suc ?m"
    by simp_all
  have "(leave_guard ^^ Suc k) (nest ps th) = leave_guard (nest (take (Suc ?m) ps) th)"
    using Suc by (simp add: eq)
  also have "take (Suc ?m) ps = take ?m ps @ [ps ! ?m]"
    using lt by (rule take_Suc_conv_app_nth)
  also have "leave_guard (nest (take ?m ps @ [ps ! ?m]) th) = nest (take ?m ps) th"
    by (simp only: nest_snoc leave_enter)
  finally show ?case .
qed

text \<open>
  C5. Constructing the guard saves the thread's current pointer in the guard and sets the
  pointer to \<open>nullptr\<close>; destroying the guard restores the saved pointer. For nested
  guards, whatever the guarded regions leave in the pointer (the list \<open>ps\<close>): after the
  \<open>k\<close> innermost guards have been destroyed, innermost first, the thread (its pointer and
  the guards still alive) is exactly as it was when the outermost of those \<open>k\<close> guards was
  constructed, for every \<open>k\<close> up to the nesting depth.
\<close>

theorem guard_lifo:
  "TemporarilyDisableMemoryTracker_ctor p = (\<lparr>memory_tracker = p\<rparr>, None) \<and>
   TemporarilyDisableMemoryTracker_dtor (fst (TemporarilyDisableMemoryTracker_ctor p)) (snd (TemporarilyDisableMemoryTracker_ctor p)) = p \<and>
   (k \<le> length ps \<longrightarrow>
      (leave_guard ^^ k) (nest ps th) = nest (take (length ps - k) ps) th)"
  by (simp add: unwind_nest TemporarilyDisableMemoryTracker_ctor_def TemporarilyDisableMemoryTracker_dtor_def)

theorem guard_lifo_witness:
  "(2::nat) \<le> length [Some (7::nat), None, Some 9] \<and>
   (leave_guard ^^ 2)
      (nest [Some 7, None, Some 9] \<lparr>current_memory_tracker = Some 5, guards = []\<rparr>)
     = \<lparr>current_memory_tracker = Some 7, guards = [\<lparr>memory_tracker = Some 5\<rparr>]\<rparr>"
  using guard_lifo [of "Some 5" 2 "[Some 7, None, Some 9]"
      "\<lparr>current_memory_tracker = Some 5, guards = []\<rparr>"]
  by (simp add: enter_guard_def TemporarilyDisableMemoryTracker_ctor_def)

text \<open>
  C9. The destructor writes the pointer saved at construction over the thread's pointer
  whatever the pointer holds at that moment: a pointer \<open>q\<close> assigned inside the guarded
  region is gone once the guard is destroyed.
\<close>

theorem guard_dtor_overwrites:
  "TemporarilyDisableMemoryTracker_dtor g q = memory_tracker g \<and>
   TemporarilyDisableMemoryTracker_dtor (fst (TemporarilyDisableMemoryTracker_ctor p)) q = p \<and>
   current_memory_tracker (leave_guard ((enter_guard th)\<lparr>current_memory_tracker := q\<rparr>))
     = current_memory_tracker th"
  by (simp add: leave_guard_def enter_guard_def TemporarilyDisableMemoryTracker_ctor_def TemporarilyDisableMemoryTracker_dtor_def)

section \<open>\<open>reset\<close>\<close>

text \<open>
  C6. Whatever state the tracker is in (so after any sequence of operations), \<open>reset\<close>
  leaves \<open>get\<close> and \<open>getPeak\<close> at zero and does not change \<open>limit\<close>, \<open>description\<close>,
  \<open>metric\<close> or the \<open>next\<close> link.
\<close>

theorem reset_frame:
  "get (reset t) = 0 \<and> getPeak (reset t) = 0 \<and> limit (reset t) = limit t \<and>
   description (reset t) = description t \<and> metric (reset t) = metric t \<and>
   next_tracker (reset t) = next_tracker t"
  by (simp add: reset_def get_def getPeak_def)

section \<open>Chains of trackers\<close>

lemma chain_cong_next:
  "(\<And>b. next_tracker (h' b) = next_tracker (h b)) \<Longrightarrow> chain h' as p = chain h as p"
  by (induction as arbitrary: p) simp_all

lemma chain_unique: "chain h as p \<Longrightarrow> chain h bs p \<Longrightarrow> as = bs"
proof (induction as arbitrary: bs p)
  case Nil
  then show ?case by (cases bs) simp_all
next
  case (Cons a as)
  then show ?case by (cases bs) auto
qed

lemma chain_suffix: "chain h (xs @ ys) p \<Longrightarrow> \<exists>q. chain h ys q"
  by (induction xs arbitrary: p) auto

lemma chain_head_notin:
  assumes "chain h (a # as) p"
  shows "a \<notin> set as"
proof
  assume "a \<in> set as"
  then obtain xs ys where split: "as = xs @ a # ys"
    by (auto simp: in_set_conv_decomp)
  from assms have rest: "chain h as (next_tracker (h a))" by simp
  with split obtain q where "chain h (a # ys) q"
    using chain_suffix by blast
  then have "chain h ys (next_tracker (h a))" by simp
  with rest have "as = ys" by (rule chain_unique)
  with split show False by simp
qed

lemma account_fields [simp]:
  "limit (account sz t) = limit t"
  "fault_probability (account sz t) = fault_probability t"
  "next_tracker (account sz t) = next_tracker t"
  "metric (account sz t) = metric t"
  "description (account sz t) = description t"
  "amount (account sz t) = amount t + sz"
  by (simp_all add: account_def Let_def)

lemma enforce_verdict:
  "fst (enforce drand48 n t) =
     (if (0 < fault_probability t \<and> drand48 n < fault_probability t) \<or> over_limit t
      then Some (exceeded t) else None)"
  by (simp add: enforce_def)

lemma enforce_drawn:
  "snd (enforce drand48 n t) = (if 0 < fault_probability t then Suc n else n)"
  by (simp add: enforce_def)

lemma alloc_unfold:
  "alloc drand48 this sz s =
     (case next_tracker (heap s this) of
        None \<Rightarrow>
          Some (case fst (enforce drand48 (drawn s) (account sz (heap s this))) of
                  Some e \<Rightarrow> Inl e | None \<Rightarrow> Inr (),
                \<lparr>heap = (heap s)(this := account sz (heap s this)),
                 drawn = snd (enforce drand48 (drawn s) (account sz (heap s this)))\<rparr>)
      | Some n \<Rightarrow>
          Option.bind
            (alloc drand48 n sz
               \<lparr>heap = (heap s)(this := account sz (heap s this)),
                drawn = snd (enforce drand48 (drawn s) (account sz (heap s this)))\<rparr>)
            (\<lambda>r. Some (case fst (enforce drand48 (drawn s) (account sz (heap s this))) of
                          Some e \<Rightarrow> Inl e | None \<Rightarrow> fst r, snd r)))"
  by (subst alloc.simps) (simp add: Let_def)

lemma alloc_returns:
  "chain (heap s) as (Some this) \<Longrightarrow>
   \<exists>r s'. alloc drand48 this sz s = Some (r, s') \<and>
     heap s' = (\<lambda>b. if b \<in> set as then account sz (heap s b) else heap s b) \<and>
     (\<forall>e. fst (enforce drand48 (drawn s) (account sz (heap s this))) = Some e \<longrightarrow> r = Inl e) \<and>
     (fst (enforce drand48 (drawn s) (account sz (heap s this))) = None \<longrightarrow>
        next_tracker (heap s this) = None \<longrightarrow> r = Inr ())"
proof (induction as arbitrary: this s)
  case Nil
  then show ?case by simp
next
  case (Cons a as)
  from Cons.prems have head: "this = a"
    and rest: "chain (heap s) as (next_tracker (heap s a))"
    by simp_all
  from Cons.prems have fresh: "a \<notin> set as" by (rule chain_head_notin)
  define v where "v = enforce drand48 (drawn s) (account sz (heap s a))"
  define s1 where "s1 = \<lparr>heap = (heap s)(a := account sz (heap s a)), drawn = snd v\<rparr>"
  show ?case
  proof (cases "next_tracker (heap s a)")
    case None
    with rest have "as = []" by (cases as) simp_all
    with None show ?thesis
      unfolding head by (subst alloc_unfold) (auto split: option.split)
  next
    case (Some n)
    have "chain (heap s1) as (Some n)"
      using rest Some chain_cong_next [of "heap s1" "heap s" as "Some n"]
      by (simp add: s1_def)
    from Cons.IH [OF this] obtain r s' where
      rec: "alloc drand48 n sz s1 = Some (r, s')"
      and eff: "heap s' = (\<lambda>b. if b \<in> set as then account sz (heap s1 b) else heap s1 b)"
      by blast
    have "alloc drand48 a sz s = Some (case fst v of Some e \<Rightarrow> Inl e | None \<Rightarrow> r, s')"
      using Some rec
      by (subst alloc_unfold) (simp add: v_def [symmetric] s1_def [symmetric] split: option.split)
    moreover have "heap s' = (\<lambda>b. if b \<in> set (a # as) then account sz (heap s b) else heap s b)"
      using fresh by (auto simp: eff s1_def)
    ultimately show ?thesis
      unfolding head using Some by (simp add: v_def)
  qed
qed

lemma alloc_passes_on:
  assumes "fst (enforce drand48 (drawn s) (account sz (heap s this))) = None"
    and "next_tracker (heap s this) = Some n"
  shows "alloc drand48 this sz s =
         alloc drand48 n sz
           \<lparr>heap = (heap s)(this := account sz (heap s this)),
            drawn = snd (enforce drand48 (drawn s) (account sz (heap s this)))\<rparr>"
  using assms by (subst alloc_unfold) (simp add: bind_eq_None_conv split: Option.bind_split)

lemma free_returns:
  "chain (heap s) as (Some this) \<Longrightarrow>
   free this sz s =
     Some (s\<lparr>heap := (\<lambda>b. if b \<in> set as then (heap s b)\<lparr>amount := amount (heap s b) - sz\<rparr>
                          else heap s b)\<rparr>)"
proof (induction as arbitrary: this s)
  case Nil
  then show ?case by simp
next
  case (Cons a as)
  from Cons.prems have head: "this = a"
    and rest: "chain (heap s) as (next_tracker (heap s a))"
    by simp_all
  from Cons.prems have fresh: "a \<notin> set as" by (rule chain_head_notin)
  define s1 where "s1 = s\<lparr>heap := (heap s)(a := (heap s a)\<lparr>amount := amount (heap s a) - sz\<rparr>)\<rparr>"
  show ?case
  proof (cases "next_tracker (heap s a)")
    case None
    with rest have "as = []" by (cases as) simp_all
    with None show ?thesis
      unfolding head by (subst free.simps) (auto simp: Let_def intro!: arg_cong [where f = "\<lambda>h. s\<lparr>heap := h\<rparr>"])
  next
    case (Some n)
    have "chain (heap s1) as (Some n)"
      using rest Some chain_cong_next [of "heap s1" "heap s" as "Some n"]
      by (simp add: s1_def)
    from Cons.IH [OF this] have
      "free n sz s1 =
         Some (s1\<lparr>heap := (\<lambda>b. if b \<in> set as then (heap s1 b)\<lparr>amount := amount (heap s1 b) - sz\<rparr>
                          else heap s1 b)\<rparr>)" .
    moreover have "free a sz s = free n sz s1"
      using Some by (subst free.simps) (simp add: Let_def s1_def)
    moreover have "(\<lambda>b. if b \<in> set as then (heap s1 b)\<lparr>amount := amount (heap s1 b) - sz\<rparr> else heap s1 b)
        = (\<lambda>b. if b \<in> set (a # as) then (heap s b)\<lparr>amount := amount (heap s b) - sz\<rparr> else heap s b)"
      using fresh by (auto simp: s1_def)
    ultimately show ?thesis
      unfolding head by (simp add: s1_def)
  qed
qed

lemma unlimited_quiet:
  "limit t = 0 \<Longrightarrow> fault_probability t = 0 \<Longrightarrow> enforce drand48 n (account sz t) = (None, n)"
  by (simp add: enforce_def over_limit_def)

lemma account_after_sub:
  "account new (t\<lparr>amount := amount t - old\<rparr>) = account (new - old) t"
  by (simp add: account_def Let_def add_diff_eq diff_add_eq)

lemma alloc_after_free:
  "chain (heap s) as (Some this) \<Longrightarrow>
   alloc drand48 this new
     (s\<lparr>heap := (\<lambda>b. if b \<in> set as then (heap s b)\<lparr>amount := amount (heap s b) - old\<rparr>
                      else heap s b)\<rparr>)
   = alloc drand48 this (new - old) s"
proof (induction as arbitrary: this s)
  case Nil
  then show ?case by simp
next
  case (Cons a as)
  from Cons.prems have head: "this = a"
    and rest: "chain (heap s) as (next_tracker (heap s a))"
    by simp_all
  from Cons.prems have fresh: "a \<notin> set as" by (rule chain_head_notin)
  define t where "t = account (new - old) (heap s a)"
  define d where "d = snd (enforce drand48 (drawn s) t)"
  define s1 where "s1 = \<lparr>heap = (heap s)(a := t), drawn = d\<rparr>"
  define sf where "sf = s\<lparr>heap := (\<lambda>b. if b \<in> set (a # as)
      then (heap s b)\<lparr>amount := amount (heap s b) - old\<rparr> else heap s b)\<rparr>"
  have t_sf: "account new (heap sf a) = t"
    by (simp add: sf_def t_def account_after_sub)
  have nx_sf: "next_tracker (heap sf a) = next_tracker (heap s a)"
    by (simp add: sf_def)
  have d_sf: "drawn sf = drawn s" by (simp add: sf_def)
  have s1_sf: "\<lparr>heap = (heap sf)(a := t), drawn = d\<rparr>
      = s1\<lparr>heap := (\<lambda>b. if b \<in> set as then (heap s1 b)\<lparr>amount := amount (heap s1 b) - old\<rparr>
                      else heap s1 b)\<rparr>"
    using fresh by (auto simp: sf_def s1_def)
  show ?case
  proof (cases "next_tracker (heap s a)")
    case None
    with rest have "as = []" by (cases as) simp_all
    with None show ?thesis
      unfolding head sf_def [symmetric]
      by (subst alloc_unfold, subst (2) alloc_unfold)
        (simp add: t_sf nx_sf d_sf t_def [symmetric] d_def [symmetric] s1_sf, simp add: s1_def)
  next
    case (Some n)
    have "chain (heap s1) as (Some n)"
      using rest Some chain_cong_next [of "heap s1" "heap s" as "Some n"]
      by (simp add: s1_def t_def)
    from Cons.IH [OF this] have IH:
      "alloc drand48 n new
        (s1\<lparr>heap := (\<lambda>b. if b \<in> set as then (heap s1 b)\<lparr>amount := amount (heap s1 b) - old\<rparr>
                      else heap s1 b)\<rparr>)
       = alloc drand48 n (new - old) s1" .
    show ?thesis
      unfolding head sf_def [symmetric]
      using Some
      by (subst alloc_unfold, subst (2) alloc_unfold)
        (simp add: t_sf nx_sf d_sf t_def [symmetric] d_def [symmetric] s1_sf IH, simp add: s1_def)
  qed
qed

lemma ex_less_Suc_split: "(\<exists>i<Suc n. P i) \<longleftrightarrow> P 0 \<or> (\<exists>j<n. P (Suc j))"
  by (metis less_Suc_eq_0_disj)

lemma alloc_raises_where:
  "chain (heap s) as (Some this) \<Longrightarrow>
   \<exists>r s'. alloc drand48 this sz s = Some (r, s') \<and>
     (r \<noteq> Inr () \<longleftrightarrow>
       (\<exists>i<length as.
          fst (enforce drand48
                (drawn s + length (filter (\<lambda>b. 0 < fault_probability (heap s b)) (take i as)))
                (account sz (heap s (as ! i)))) \<noteq> None))"
proof (induction as arbitrary: this s)
  case Nil
  then show ?case by simp
next
  case (Cons a as)
  from Cons.prems have head: "this = a"
    and rest: "chain (heap s) as (next_tracker (heap s a))"
    by simp_all
  from Cons.prems have fresh: "a \<notin> set as" by (rule chain_head_notin)
  define v where "v = enforce drand48 (drawn s) (account sz (heap s a))"
  define s1 where "s1 = \<lparr>heap = (heap s)(a := account sz (heap s a)), drawn = snd v\<rparr>"
  have d1: "drawn s1 = drawn s + (if 0 < fault_probability (heap s a) then 1 else 0)"
    by (simp add: s1_def v_def enforce_drawn)
  have same: "heap s1 b = heap s b" if "b \<in> set as" for b
    using that fresh by (auto simp: s1_def)
  define F where "F = (\<lambda>i. fst (enforce drand48
      (drawn s + length (filter (\<lambda>b. 0 < fault_probability (heap s b)) (take i (a # as))))
      (account sz (heap s ((a # as) ! i)))))"
  define G where "G = (\<lambda>j. fst (enforce drand48
      (drawn s1 + length (filter (\<lambda>b. 0 < fault_probability (heap s1 b)) (take j as)))
      (account sz (heap s1 (as ! j)))))"
  have later: "G j = F (Suc j)" if "j < length as" for j
  proof -
    have "filter (\<lambda>b. 0 < fault_probability (heap s1 b)) (take j as)
        = filter (\<lambda>b. 0 < fault_probability (heap s b)) (take j as)"
      by (rule filter_cong) (auto dest: in_set_takeD simp: same)
    moreover have "heap s1 (as ! j) = heap s (as ! j)"
      using that by (simp add: same)
    ultimately show ?thesis by (simp add: d1 F_def G_def)
  qed
  have first: "F 0 = fst v" by (simp add: F_def v_def)
  show ?case
  proof (cases "next_tracker (heap s a)")
    case None
    with rest have "as = []" by (cases as) simp_all
    with None show ?thesis
      unfolding head by (subst alloc_unfold) (auto split: option.split)
  next
    case (Some n)
    have "chain (heap s1) as (Some n)"
      using rest Some chain_cong_next [of "heap s1" "heap s" as "Some n"]
      by (simp add: s1_def)
    from Cons.IH [OF this] obtain r s' where
      rec: "alloc drand48 n sz s1 = Some (r, s')"
      and raw: "r \<noteq> Inr () \<longleftrightarrow>
       (\<exists>j<length as.
          fst (enforce drand48
                (drawn s1 + length (filter (\<lambda>b. 0 < fault_probability (heap s1 b)) (take j as)))
                (account sz (heap s1 (as ! j)))) \<noteq> None)"
      by (elim exE conjE) (rule that)
    have iff: "r \<noteq> Inr () \<longleftrightarrow> (\<exists>j<length as. G j \<noteq> None)"
      unfolding G_def by (rule raw)
    have ret: "alloc drand48 a sz s = Some (case fst v of Some e \<Rightarrow> Inl e | None \<Rightarrow> r, s')"
      using Some rec
      by (subst alloc_unfold) (simp add: v_def [symmetric] s1_def [symmetric] split: option.split)
    have "(case fst v of Some e \<Rightarrow> Inl e | None \<Rightarrow> r) \<noteq> Inr () \<longleftrightarrow>
        fst v \<noteq> None \<or> r \<noteq> Inr ()"
      by (cases "fst v") simp_all
    also have "\<dots> \<longleftrightarrow> F 0 \<noteq> None \<or> (\<exists>j<length as. F (Suc j) \<noteq> None)"
      unfolding iff first using later by auto
    also have "\<dots> \<longleftrightarrow> (\<exists>i<length (a # as). F i \<noteq> None)"
      unfolding length_Cons by (rule ex_less_Suc_split [symmetric])
    finally have "(case fst v of Some e \<Rightarrow> Inl e | None \<Rightarrow> r) \<noteq> Inr () \<longleftrightarrow>
        (\<exists>i<length (a # as). F i \<noteq> None)" .
    with ret show ?thesis
      unfolding head F_def by (intro exI conjI)
  qed
qed

lemma sint_shrink:
  fixes a old new :: Int64
  assumes "new <s old" and "- (2 ^ 63) \<le> sint a - (sint old - sint new)"
  shows "sint (a + (new - old)) < sint a"
proof -
  have lt: "sint new < sint old" using assms(1) by (simp add: word_sless_alt)
  have "sint a < 2 ^ 63" using sint_lt [of a] by simp
  with lt have up: "sint a + sint new - sint old < 2 ^ 63" by simp
  have "a + (new - old) = word_of_int (sint a + sint new - sint old)" by simp
  then have "sint (a + (new - old)) = signed_take_bit 63 (sint a + sint new - sint old)"
    by (simp only: sint_sbintrunc') simp
  also have "\<dots> = sint a + sint new - sint old"
    using assms(2) up by (simp add: signed_take_bit_int_eq_self)
  finally show ?thesis using lt by simp
qed

lemma free_single:
  "next_tracker (heap s this) = None \<Longrightarrow>
   free this sz s = Some (s\<lparr>heap := (heap s)(this := (heap s this)\<lparr>amount := amount (heap s this) - sz\<rparr>)\<rparr>)"
  by (subst free.simps) (simp add: Let_def)

text \<open>
  The scenario of section 8 of the spec, on a tracker with limit 1000: \<open>alloc(600)\<close>
  succeeds, \<open>alloc(500)\<close> raises with amount 1100 and limit 1000, the caller undoes it with
  \<open>free(500)\<close>; at the end \<open>get\<close> is 600 and \<open>getPeak\<close> is 1100.
\<close>

lemma concrete_scenario:
  "run drand48 1 [Alloc 600, Alloc 500, Free 500]
      \<lparr>heap = (\<lambda>_. MemoryTracker1 m 1000), drawn = 0\<rparr>
   = Some ([Inr (),
            Inl \<lparr>exc_amount = 1100, exc_limit = 1000, exc_description = None\<rparr>,
            Inr ()],
           \<lparr>heap = (\<lambda>_. MemoryTracker1 m 1000)
              (1 := \<lparr>amount = 600, peak = 1100, limit = 1000, fault_probability = 0,
                     next_tracker = None, metric = m, description = None\<rparr>),
            drawn = 0\<rparr>)"
  by (simp add: alloc_unfold free_single MemoryTracker1_def enforce_def over_limit_def
      account_def exceeded_def word_sless_alt)

section \<open>\<open>alloc\<close>: enforcement and forwarding\<close>

text \<open>
  C2. On a chain that ends in \<open>nullptr\<close> and with a random value below 1, \<open>alloc\<close> returns,
  and the tracker's counter holds the added size whatever the outcome (no roll-back). The
  tracker's own check raises exactly when the injected fault fires (\<open>fault\<close>) or the limit
  is positive and the new amount exceeds it (\<open>over\<close>): then the call raises, with the new
  amount, the limit and the description; otherwise a tracker without \<open>next\<close> returns
  normally. With \<open>fault_probability = 1\<close> the fault fires on every call, with
  \<open>fault_probability = 0\<close> never. With a \<open>next\<close>, the trackers further along the chain run
  the same check, each with its own limit and its own random value: the call raises exactly
  when the check of some tracker of the chain fires.
\<close>

theorem alloc_raises_iff:
  assumes "chain (heap s) as (Some this)"
    and "drand48 (drawn s) < 1"
  shows "\<exists>r s'. alloc drand48 this sz s = Some (r, s') \<and>
     get (heap s' this) = get (heap s this) + sz \<and>
     (let t = heap s this;
          fault = (0 < fault_probability t \<and> drand48 (drawn s) < fault_probability t);
          over = (0 <s limit t \<and> limit t <s amount t + sz)
      in (fst (enforce drand48 (drawn s) (account sz t)) \<noteq> None \<longleftrightarrow> fault \<or> over) \<and>
         (fault \<or> over \<longrightarrow>
            r = Inl \<lparr>exc_amount = amount t + sz, exc_limit = limit t,
                     exc_description = description t\<rparr>) \<and>
         (\<not> (fault \<or> over) \<longrightarrow> next_tracker t = None \<longrightarrow> r = Inr ()) \<and>
         (fault_probability t = 1 \<longrightarrow> fault) \<and>
         (fault_probability t = 0 \<longrightarrow> \<not> fault)) \<and>
     (r \<noteq> Inr () \<longleftrightarrow>
        (\<exists>i<length as.
           let t = heap s (as ! i);
               k = drawn s + length (filter (\<lambda>b. 0 < fault_probability (heap s b)) (take i as))
           in (0 < fault_probability t \<and> drand48 k < fault_probability t) \<or>
              (0 <s limit t \<and> limit t <s amount t + sz)))"
proof -
  define t where "t = heap s this"
  define fault where "fault \<longleftrightarrow> 0 < fault_probability t \<and> drand48 (drawn s) < fault_probability t"
  define over where "over \<longleftrightarrow> 0 <s limit t \<and> limit t <s amount t + sz"
  have verdict: "fst (enforce drand48 (drawn s) (account sz t)) =
      (if fault \<or> over then Some \<lparr>exc_amount = amount t + sz, exc_limit = limit t,
                     exc_description = description t\<rparr> else None)"
    by (simp add: enforce_verdict over_limit_def exceeded_def fault_def over_def)
  from assms(1) have head: "this \<in> set as" by (cases as) simp_all
  from alloc_returns [OF assms(1), of drand48 sz] obtain r s' where
    ret: "alloc drand48 this sz s = Some (r, s')"
    and eff: "heap s' = (\<lambda>b. if b \<in> set as then account sz (heap s b) else heap s b)"
    and raised: "\<forall>e. fst (enforce drand48 (drawn s) (account sz (heap s this))) = Some e \<longrightarrow> r = Inl e"
    and quiet: "fst (enforce drand48 (drawn s) (account sz (heap s this))) = None \<longrightarrow>
        next_tracker (heap s this) = None \<longrightarrow> r = Inr ()"
    by (elim exE conjE) (rule that)
  have counted: "get (heap s' this) = get (heap s this) + sz"
    using head by (simp add: eff get_def)
  have c0: "fst (enforce drand48 (drawn s) (account sz t)) \<noteq> None \<longleftrightarrow> fault \<or> over"
    by (simp add: verdict)
  have c1: "fault \<or> over \<longrightarrow> r = Inl \<lparr>exc_amount = amount t + sz, exc_limit = limit t,
                     exc_description = description t\<rparr>"
    using raised by (simp add: verdict t_def [symmetric])
  have c2: "\<not> (fault \<or> over) \<longrightarrow> next_tracker t = None \<longrightarrow> r = Inr ()"
    using quiet by (simp add: verdict t_def [symmetric])
  have c3: "fault_probability t = 1 \<longrightarrow> fault"
    using assms(2) by (simp add: fault_def)
  have c4: "fault_probability t = 0 \<longrightarrow> \<not> fault"
    by (simp add: fault_def)
  have local: "let t = heap s this;
          fault = (0 < fault_probability t \<and> drand48 (drawn s) < fault_probability t);
          over = (0 <s limit t \<and> limit t <s amount t + sz)
      in (fst (enforce drand48 (drawn s) (account sz t)) \<noteq> None \<longleftrightarrow> fault \<or> over) \<and>
         (fault \<or> over \<longrightarrow>
            r = Inl \<lparr>exc_amount = amount t + sz, exc_limit = limit t,
                     exc_description = description t\<rparr>) \<and>
         (\<not> (fault \<or> over) \<longrightarrow> next_tracker t = None \<longrightarrow> r = Inr ()) \<and>
         (fault_probability t = 1 \<longrightarrow> fault) \<and>
         (fault_probability t = 0 \<longrightarrow> \<not> fault)"
    unfolding Let_def t_def [symmetric] fault_def [symmetric] over_def [symmetric]
    using c0 c1 c2 c3 c4 by (intro conjI)
  have fires: "fst (enforce drand48 k (account sz u)) \<noteq> None \<longleftrightarrow>
      (0 < fault_probability u \<and> drand48 k < fault_probability u) \<or>
      (0 <s limit u \<and> limit u <s amount u + sz)" for k u
    by (simp add: enforce_verdict over_limit_def)
  from alloc_raises_where [OF assms(1), of drand48 sz] ret have raw:
    "r \<noteq> Inr () \<longleftrightarrow>
       (\<exists>i<length as.
          fst (enforce drand48
                (drawn s + length (filter (\<lambda>b. 0 < fault_probability (heap s b)) (take i as)))
                (account sz (heap s (as ! i)))) \<noteq> None)"
    by simp
  have along: "r \<noteq> Inr () \<longleftrightarrow>
        (\<exists>i<length as.
           let t = heap s (as ! i);
               k = drawn s + length (filter (\<lambda>b. 0 < fault_probability (heap s b)) (take i as))
           in (0 < fault_probability t \<and> drand48 k < fault_probability t) \<or>
              (0 <s limit t \<and> limit t <s amount t + sz))"
    unfolding Let_def fires [symmetric] by (rule raw)
  from ret counted local along show ?thesis
    by (intro exI [of _ r] exI [of _ s'] conjI)
qed

theorem alloc_raises_iff_witness:
  "chain (\<lambda>_. \<lparr>amount = 600, peak = 600, limit = 1000, fault_probability = 0,
        next_tracker = None, metric = 0, description = Some ''for user''\<rparr>) [1] (Some 1) \<and>
   (1 / 2 :: real) < 1 \<and>
   (\<exists>s'. alloc (\<lambda>_. 1 / 2) 1 500
      \<lparr>heap = (\<lambda>_. \<lparr>amount = 600, peak = 600, limit = 1000, fault_probability = 0,
        next_tracker = None, metric = 0, description = Some ''for user''\<rparr>), drawn = 0\<rparr>
      = Some (Inl \<lparr>exc_amount = 1100, exc_limit = 1000, exc_description = Some ''for user''\<rparr>, s')
      \<and> get (heap s' 1) = 1100)"
  using alloc_raises_iff [of "\<lparr>heap = (\<lambda>_. \<lparr>amount = 600, peak = 600, limit = 1000, fault_probability = 0,
        next_tracker = None, metric = 0, description = Some ''for user''\<rparr>), drawn = 0\<rparr>" "[1]" 1 "\<lambda>_. 1 / 2" 500]
  by (simp add: word_sless_alt get_def enforce_verdict over_limit_def)

text \<open>
  C3. On every chain that ends in \<open>nullptr\<close>, \<open>alloc\<close> on the head returns and, whatever
  the result \<open>r\<close> (raised or not), every tracker of the chain has had the same size added
  to its counters; trackers outside the chain are untouched. In particular on a chain
  \<open>A \<rightarrow> B \<rightarrow> C\<close> where \<open>A\<close> and \<open>B\<close> have no limit and no fault injection and the
  allocation exceeds the limit of \<open>C\<close>, the call raises the condition of \<open>C\<close>, and the
  counters of \<open>A\<close> and \<open>B\<close> hold the full size.
\<close>

theorem alloc_forwards:
  assumes "chain (heap s) as (Some this)"
  shows "\<exists>r s'. alloc drand48 this sz s = Some (r, s') \<and>
     (\<forall>b \<in> set as. heap s' b = account sz (heap s b) \<and> get (heap s' b) = get (heap s b) + sz) \<and>
     (\<forall>b. b \<notin> set as \<longrightarrow> heap s' b = heap s b) \<and>
     (\<forall>A B C. as = [A, B, C] \<and>
        limit (heap s A) = 0 \<and> fault_probability (heap s A) = 0 \<and>
        limit (heap s B) = 0 \<and> fault_probability (heap s B) = 0 \<and>
        0 <s limit (heap s C) \<and> limit (heap s C) <s amount (heap s C) + sz \<longrightarrow>
        r = Inl \<lparr>exc_amount = amount (heap s C) + sz, exc_limit = limit (heap s C),
                 exc_description = description (heap s C)\<rparr>)"
proof -
  from alloc_returns [OF assms, of drand48 sz] obtain r s' where
    ret: "alloc drand48 this sz s = Some (r, s')"
    and eff: "heap s' = (\<lambda>b. if b \<in> set as then account sz (heap s b) else heap s b)"
    by (elim exE conjE) (rule that)
  have inside: "\<forall>b \<in> set as. heap s' b = account sz (heap s b) \<and> get (heap s' b) = get (heap s b) + sz"
    by (simp add: eff get_def)
  have outside: "\<forall>b. b \<notin> set as \<longrightarrow> heap s' b = heap s b"
    by (simp add: eff)
  have last: "\<forall>A B C. as = [A, B, C] \<and>
        limit (heap s A) = 0 \<and> fault_probability (heap s A) = 0 \<and>
        limit (heap s B) = 0 \<and> fault_probability (heap s B) = 0 \<and>
        0 <s limit (heap s C) \<and> limit (heap s C) <s amount (heap s C) + sz \<longrightarrow>
        r = Inl \<lparr>exc_amount = amount (heap s C) + sz, exc_limit = limit (heap s C),
                 exc_description = description (heap s C)\<rparr>"
  proof (intro allI impI, elim conjE)
    fix A B C
    assume shape: "as = [A, B, C]"
      and A: "limit (heap s A) = 0" "fault_probability (heap s A) = 0"
      and B: "limit (heap s B) = 0" "fault_probability (heap s B) = 0"
      and C: "0 <s limit (heap s C)" "limit (heap s C) <s amount (heap s C) + sz"
    from assms shape have links: "this = A" "next_tracker (heap s A) = Some B"
      "next_tracker (heap s B) = Some C" "next_tracker (heap s C) = None"
      by simp_all
    from assms shape have "distinct [A, B, C]"
      using chain_head_notin [of "heap s" A "[B, C]" "Some A"]
        chain_head_notin [of "heap s" B "[C]" "Some B"]
      by simp
    then have neq: "A \<noteq> B" "A \<noteq> C" "B \<noteq> C" by simp_all
    define s1 where "s1 = \<lparr>heap = (heap s)(A := account sz (heap s A)), drawn = drawn s\<rparr>"
    define s2 where "s2 = \<lparr>heap = (heap s1)(B := account sz (heap s1 B)), drawn = drawn s1\<rparr>"
    have step1: "alloc drand48 A sz s = alloc drand48 B sz s1"
      using alloc_passes_on [of drand48 s sz A B] links A
      by (simp add: unlimited_quiet s1_def)
    have B1: "heap s1 B = heap s B" using neq by (simp add: s1_def)
    have step2: "alloc drand48 B sz s1 = alloc drand48 C sz s2"
      using alloc_passes_on [of drand48 s1 sz B C] links B
      by (simp add: unlimited_quiet s2_def B1)
    have C2: "heap s2 C = heap s C" using neq by (simp add: s2_def s1_def)
    have "chain (heap s2) [C] (Some C)"
      using links by (simp add: C2)
    from alloc_returns [OF this, of drand48 sz] obtain r' s'' where
      ret': "alloc drand48 C sz s2 = Some (r', s'')"
      and raised: "\<forall>e. fst (enforce drand48 (drawn s2) (account sz (heap s2 C))) = Some e \<longrightarrow> r' = Inl e"
      by (elim exE conjE) (rule that)
    have "fst (enforce drand48 (drawn s2) (account sz (heap s2 C))) = Some (exceeded (account sz (heap s C)))"
      using C by (simp add: enforce_verdict over_limit_def C2)
    with raised have "r' = Inl (exceeded (account sz (heap s C)))" by simp
    moreover from ret ret' step1 step2 links have "r = r'" by simp
    ultimately show "r = Inl \<lparr>exc_amount = amount (heap s C) + sz, exc_limit = limit (heap s C),
                 exc_description = description (heap s C)\<rparr>"
      by (simp add: exceeded_def)
  qed
  from ret inside outside last show ?thesis
    by (intro exI [of _ r] exI [of _ s'] conjI)
qed

theorem alloc_forwards_witness:
  "chain ((\<lambda>_. MemoryTracker1 0 1000)
            (1 := setNext (Some 2) (MemoryTracker0 0), 2 := setNext (Some 3) (MemoryTracker0 0)))
     [1, 2, 3] (Some 1) \<and>
   (\<exists>s'. alloc (\<lambda>_. 0) 1 1100
      \<lparr>heap = (\<lambda>_. MemoryTracker1 0 1000)
            (1 := setNext (Some 2) (MemoryTracker0 0), 2 := setNext (Some 3) (MemoryTracker0 0)),
       drawn = 0\<rparr>
      = Some (Inl \<lparr>exc_amount = 1100, exc_limit = 1000, exc_description = None\<rparr>, s') \<and>
      get (heap s' 1) = 1100 \<and> get (heap s' 2) = 1100 \<and> get (heap s' 3) = 1100 \<and>
      heap s' 4 = MemoryTracker1 0 1000)"
  using alloc_forwards [of "\<lparr>heap = (\<lambda>_. MemoryTracker1 0 1000)
            (1 := setNext (Some 2) (MemoryTracker0 0), 2 := setNext (Some 3) (MemoryTracker0 0)),
       drawn = 0\<rparr>" "[1, 2, 3]" 1 "\<lambda>_. 0" 1100]
  by (auto simp add: MemoryTracker0_def MemoryTracker1_def setNext_def get_def word_sless_alt)

section \<open>\<open>realloc\<close>\<close>

text \<open>
  C4. \<open>realloc old new\<close> is \<open>alloc (new - old)\<close>. On a chain that ends in \<open>nullptr\<close> it
  returns, leaves \<open>amount - old + new\<close> in the counter and advances the peak only if that
  value exceeds it; and \<open>free old\<close> followed by \<open>alloc new\<close> gives the same result and the
  same state (in 64-bit arithmetic), so nothing is counted twice.
\<close>

theorem realloc_net_delta:
  "realloc drand48 this old_size new_size s = alloc drand48 this (new_size - old_size) s \<and>
   (chain (heap s) as (Some this) \<longrightarrow>
      (\<exists>r s'. realloc drand48 this old_size new_size s = Some (r, s') \<and>
         get (heap s' this) = get (heap s this) - old_size + new_size \<and>
         getPeak (heap s' this) =
           (if getPeak (heap s this) <s get (heap s this) - old_size + new_size
            then get (heap s this) - old_size + new_size else getPeak (heap s this))) \<and>
      Option.bind (free this old_size s) (alloc drand48 this new_size)
        = realloc drand48 this old_size new_size s)"
proof (intro conjI impI)
  show "realloc drand48 this old_size new_size s = alloc drand48 this (new_size - old_size) s"
    by (simp add: realloc_def)
next
  assume ch: "chain (heap s) as (Some this)"
  then have head: "this \<in> set as" by (cases as) simp_all
  from alloc_returns [OF ch, of drand48 "new_size - old_size"] obtain r s' where
    ret: "alloc drand48 this (new_size - old_size) s = Some (r, s')"
    and eff: "heap s' = (\<lambda>b. if b \<in> set as then account (new_size - old_size) (heap s b) else heap s b)"
    by (elim exE conjE) (rule that)
  have now: "heap s' this = account (new_size - old_size) (heap s this)"
    using head by (simp add: eff)
  have "realloc drand48 this old_size new_size s = Some (r, s')"
    using ret by (simp add: realloc_def)
  moreover have "get (heap s' this) = get (heap s this) - old_size + new_size"
    by (simp add: now get_def)
  moreover have "getPeak (heap s' this) =
           (if getPeak (heap s this) <s get (heap s this) - old_size + new_size
            then get (heap s this) - old_size + new_size else getPeak (heap s this))"
    by (simp add: now get_def getPeak_def account_def Let_def add_diff_eq diff_add_eq)
  ultimately show "\<exists>r s'. realloc drand48 this old_size new_size s = Some (r, s') \<and>
         get (heap s' this) = get (heap s this) - old_size + new_size \<and>
         getPeak (heap s' this) =
           (if getPeak (heap s this) <s get (heap s this) - old_size + new_size
            then get (heap s this) - old_size + new_size else getPeak (heap s this))"
    by (intro exI [of _ r] exI [of _ s'] conjI)
next
  assume ch: "chain (heap s) as (Some this)"
  show "Option.bind (free this old_size s) (alloc drand48 this new_size)
        = realloc drand48 this old_size new_size s"
    by (simp add: free_returns [OF ch] alloc_after_free [OF ch] realloc_def)
qed

theorem realloc_net_delta_witness:
  "chain (\<lambda>_. \<lparr>amount = 600, peak = 700, limit = 0, fault_probability = 0,
        next_tracker = None, metric = 0, description = None\<rparr>) [1] (Some 1) \<and>
   (\<exists>r s'. realloc (\<lambda>_. 0) 1 500 800
      \<lparr>heap = (\<lambda>_. \<lparr>amount = 600, peak = 700, limit = 0, fault_probability = 0,
        next_tracker = None, metric = 0, description = None\<rparr>), drawn = 0\<rparr> = Some (r, s') \<and>
      get (heap s' 1) = 900 \<and> getPeak (heap s' 1) = 900) \<and>
   Option.bind (free 1 500 \<lparr>heap = (\<lambda>_. \<lparr>amount = 600, peak = 700, limit = 0,
        fault_probability = 0, next_tracker = None, metric = 0, description = None\<rparr>), drawn = 0\<rparr>)
        (alloc (\<lambda>_. 0) 1 800)
     = realloc (\<lambda>_. 0) 1 500 800
      \<lparr>heap = (\<lambda>_. \<lparr>amount = 600, peak = 700, limit = 0, fault_probability = 0,
        next_tracker = None, metric = 0, description = None\<rparr>), drawn = 0\<rparr>"
proof -
  have ch: "chain (heap \<lparr>heap = (\<lambda>_. \<lparr>amount = 600, peak = 700, limit = 0,
        fault_probability = 0, next_tracker = None, metric = 0, description = None\<rparr>),
        drawn = 0\<rparr>) [1] (Some 1)"
    by simp
  show ?thesis
    using ch realloc_net_delta [THEN conjunct2, THEN mp, OF ch, of "\<lambda>_. 0" 500 800]
    by (simp add: get_def getPeak_def word_sless_alt)
qed

text \<open>
  C8. A shrinking \<open>realloc\<close> (\<open>new < old\<close>) goes through \<open>alloc\<close> with a negative size, so
  the fault injection runs: with a positive \<open>fault_probability\<close> and a random value below
  it, the call raises, although the counter has gone down by \<open>old - new\<close> (strictly down
  as a signed number unless the subtraction wraps around).
\<close>

theorem shrinking_realloc_can_raise:
  assumes "chain (heap s) as (Some this)"
    and "new_size <s old_size"
    and "0 < fault_probability (heap s this)"
    and "drand48 (drawn s) < fault_probability (heap s this)"
  shows "\<exists>s'. realloc drand48 this old_size new_size s =
        Some (Inl \<lparr>exc_amount = amount (heap s this) + (new_size - old_size),
                   exc_limit = limit (heap s this),
                   exc_description = description (heap s this)\<rparr>, s') \<and>
      get (heap s' this) = get (heap s this) + (new_size - old_size) \<and>
      (- (2 ^ 63) \<le> sint (get (heap s this)) - (sint old_size - sint new_size) \<longrightarrow>
         sint (get (heap s' this)) < sint (get (heap s this)))"
proof -
  from assms(1) have head: "this \<in> set as" by (cases as) simp_all
  from alloc_returns [OF assms(1), of drand48 "new_size - old_size"] obtain r s' where
    ret: "alloc drand48 this (new_size - old_size) s = Some (r, s')"
    and eff: "heap s' = (\<lambda>b. if b \<in> set as then account (new_size - old_size) (heap s b) else heap s b)"
    and raised: "\<forall>e. fst (enforce drand48 (drawn s) (account (new_size - old_size) (heap s this))) = Some e
        \<longrightarrow> r = Inl e"
    by (elim exE conjE) (rule that)
  have "fst (enforce drand48 (drawn s) (account (new_size - old_size) (heap s this)))
      = Some (exceeded (account (new_size - old_size) (heap s this)))"
    using assms(3,4) by (simp add: enforce_verdict)
  with raised have r: "r = Inl \<lparr>exc_amount = amount (heap s this) + (new_size - old_size),
                   exc_limit = limit (heap s this),
                   exc_description = description (heap s this)\<rparr>"
    by (simp add: exceeded_def)
  have counted: "get (heap s' this) = get (heap s this) + (new_size - old_size)"
    using head by (simp add: eff get_def)
  have less: "- (2 ^ 63) \<le> sint (get (heap s this)) - (sint old_size - sint new_size) \<longrightarrow>
         sint (get (heap s' this)) < sint (get (heap s this))"
    unfolding counted using sint_shrink [OF assms(2)] by simp
  from ret r have "realloc drand48 this old_size new_size s =
        Some (Inl \<lparr>exc_amount = amount (heap s this) + (new_size - old_size),
                   exc_limit = limit (heap s this),
                   exc_description = description (heap s this)\<rparr>, s')"
    by (simp add: realloc_def)
  with counted less show ?thesis
    by (intro exI [of _ s'] conjI)
qed

theorem shrinking_realloc_can_raise_witness:
  "chain (\<lambda>_. \<lparr>amount = 600, peak = 600, limit = 0, fault_probability = 1,
        next_tracker = None, metric = 0, description = None\<rparr>) [1] (Some 1) \<and>
   (100 :: Int64) <s 500 \<and> (1 / 2 :: real) < 1 \<and>
   (\<exists>s'. realloc (\<lambda>_. 1 / 2) 1 500 100
      \<lparr>heap = (\<lambda>_. \<lparr>amount = 600, peak = 600, limit = 0, fault_probability = 1,
        next_tracker = None, metric = 0, description = None\<rparr>), drawn = 0\<rparr>
      = Some (Inl \<lparr>exc_amount = 200, exc_limit = 0, exc_description = None\<rparr>, s') \<and>
      get (heap s' 1) = 200 \<and> sint (get (heap s' 1)) < 600)"
  using shrinking_realloc_can_raise [of "\<lparr>heap = (\<lambda>_. \<lparr>amount = 600, peak = 600, limit = 0,
        fault_probability = 1, next_tracker = None, metric = 0, description = None\<rparr>),
        drawn = 0\<rparr>" "[1]" 1 100 500 "\<lambda>_. 1 / 2"]
  by (simp add: get_def word_sless_alt)

section \<open>\<open>free\<close>\<close>

lemma chain_distinct: "chain h as p \<Longrightarrow> distinct as"
proof (induction as arbitrary: p)
  case Nil
  show ?case by simp
next
  case (Cons a as)
  from Cons.prems have "a \<notin> set as" by (rule chain_head_notin)
  moreover from Cons.prems have "chain h as (next_tracker (h a))" by simp
  then have "distinct as" by (rule Cons.IH)
  ultimately show ?case by simp
qed

lemma fetch_sub_commute:
  "fetch_sub a n (fetch_sub b m h) = fetch_sub b m (fetch_sub a n h)"
  by (auto simp: fetch_sub_def fun_eq_iff)

lemma fold_fetch_sub:
  "distinct as \<Longrightarrow>
   fold (\<lambda>a. fetch_sub a n) as h =
     (\<lambda>b. if b \<in> set as then (h b)\<lparr>amount := amount (h b) - n\<rparr> else h b)"
proof (induction as arbitrary: h)
  case Nil
  show ?case by simp
next
  case (Cons a as)
  then show ?case by (auto simp: fetch_sub_def fun_eq_iff)
qed

lemma fold_step_past:
  "fold (\<lambda>st. fetch_sub (fst st) (snd st)) xs (fetch_sub a n h)
   = fetch_sub a n (fold (\<lambda>st. fetch_sub (fst st) (snd st)) xs h)"
proof (induction xs arbitrary: h)
  case Nil
  show ?case by simp
next
  case (Cons x xs)
  have "fold (\<lambda>st. fetch_sub (fst st) (snd st)) (x # xs) (fetch_sub a n h)
      = fold (\<lambda>st. fetch_sub (fst st) (snd st)) xs (fetch_sub a n (fetch_sub (fst x) (snd x) h))"
    by (simp add: fetch_sub_commute [of "fst x" "snd x" a n h])
  also have "\<dots> = fetch_sub a n (fold (\<lambda>st. fetch_sub (fst st) (snd st)) xs (fetch_sub (fst x) (snd x) h))"
    by (rule Cons.IH)
  finally show ?case by simp
qed

lemma fold_shuffles:
  "zs \<in> shuffles xs ys \<Longrightarrow>
   fold (\<lambda>st. fetch_sub (fst st) (snd st)) zs h
   = fold (\<lambda>st. fetch_sub (fst st) (snd st)) ys (fold (\<lambda>st. fetch_sub (fst st) (snd st)) xs h)"
proof (induction xs ys arbitrary: zs h rule: shuffles.induct)
  case (1 ys)
  then show ?case by simp
next
  case (2 xs)
  then show ?case by simp
next
  case (3 x xs y ys)
  from "3.prems" consider
    (left) zs' where "zs = x # zs'" "zs' \<in> shuffles xs (y # ys)"
    | (right) zs' where "zs = y # zs'" "zs' \<in> shuffles (x # xs) ys"
    by auto
  then show ?case
  proof cases
    case left
    with "3.IH"(1) [of zs' "fetch_sub (fst x) (snd x) h"] show ?thesis by simp
  next
    case right
    let ?F = "fold (\<lambda>st. fetch_sub (fst st) (snd st))"
    have "?F zs h = ?F zs' (fetch_sub (fst y) (snd y) h)"
      by (simp add: right(1))
    also have "\<dots> = ?F ys (?F (x # xs) (fetch_sub (fst y) (snd y) h))"
      using right(2) by (rule "3.IH"(2))
    also have "?F (x # xs) (fetch_sub (fst y) (snd y) h) = fetch_sub (fst y) (snd y) (?F (x # xs) h)"
      by (rule fold_step_past)
    also have "?F ys (fetch_sub (fst y) (snd y) (?F (x # xs) h)) = ?F (y # ys) (?F (x # xs) h)"
      by simp
    finally show ?thesis .
  qed
qed

lemma steps_effect:
  assumes "chain h as p"
  shows "fold (\<lambda>st. fetch_sub (fst st) (snd st)) (map (\<lambda>a. (a, sz)) as) h
    = (\<lambda>b. if b \<in> set as then (h b)\<lparr>amount := amount (h b) - sz\<rparr> else h b)"
proof -
  have "fold (\<lambda>st. fetch_sub (fst st) (snd st)) (map (\<lambda>a. (a, sz)) as) h
      = fold (\<lambda>a. fetch_sub a sz) as h"
    by (simp add: fold_map comp_def)
  also have "\<dots> = (\<lambda>b. if b \<in> set as then (h b)\<lparr>amount := amount (h b) - sz\<rparr> else h b)"
    using assms by (intro fold_fetch_sub chain_distinct)
  finally show ?thesis .
qed

lemma free_steps:
  assumes "chain (heap s) as (Some this)"
  shows "free this sz s =
    Some (s\<lparr>heap := fold (\<lambda>st. fetch_sub (fst st) (snd st)) (map (\<lambda>a. (a, sz)) as) (heap s)\<rparr>)"
  by (simp only: steps_effect [OF assms] free_returns [OF assms])

lemma free_ignores_settings:
  assumes "chain (heap s) as (Some this)"
  shows "free this sz (s\<lparr>heap := (\<lambda>b. (heap s b)\<lparr>limit := L b, fault_probability := P b\<rparr>)\<rparr>)
    = map_option (\<lambda>s'. s'\<lparr>heap := (\<lambda>b. (heap s' b)\<lparr>limit := L b, fault_probability := P b\<rparr>)\<rparr>)
        (free this sz s)"
proof -
  let ?s = "s\<lparr>heap := (\<lambda>b. (heap s b)\<lparr>limit := L b, fault_probability := P b\<rparr>)\<rparr>"
  have "chain (heap ?s) as (Some this)"
    using assms chain_cong_next [of "heap ?s" "heap s" as "Some this"] by simp
  from free_returns [OF this, of sz] free_returns [OF assms, of sz] show ?thesis
    by (simp add: fun_eq_iff)
qed

lemma invoke_returns:
  assumes "chain (heap s) as (Some this)"
    and "\<forall>n. m \<noteq> alloc_call n" and "\<forall>old_size new_size. m \<noteq> realloc_call old_size new_size"
  shows "\<exists>v s'. invoke drand48 this m s = Some (Inr v, s')"
  using assms(2,3) by (cases m) (simp_all add: free_returns [OF assms(1)])

lemma free_twice:
  assumes "chain (heap s) as (Some this)" and "chain (heap s) bs (Some other)"
    and "zs \<in> shuffles (map (\<lambda>a. (a, sz)) as) (map (\<lambda>b. (b, sz')) bs)"
  shows "Option.bind (free this sz s) (free other sz')
    = Some (s\<lparr>heap := fold (\<lambda>st. fetch_sub (fst st) (snd st)) zs (heap s)\<rparr>)"
proof -
  let ?s1 = "s\<lparr>heap := fold (\<lambda>st. fetch_sub (fst st) (snd st)) (map (\<lambda>a. (a, sz)) as) (heap s)\<rparr>"
  have first: "free this sz s = Some ?s1" using assms(1) by (rule free_steps)
  have "heap ?s1 = (\<lambda>b. if b \<in> set as then (heap s b)\<lparr>amount := amount (heap s b) - sz\<rparr>
      else heap s b)"
    by (simp add: steps_effect [OF assms(1)])
  then have "chain (heap ?s1) bs (Some other)"
    using assms(2) chain_cong_next [of "heap ?s1" "heap s" bs "Some other"] by simp
  from free_steps [OF this, of sz'] have second: "free other sz' ?s1 =
    Some (s\<lparr>heap := fold (\<lambda>st. fetch_sub (fst st) (snd st)) (map (\<lambda>b. (b, sz')) bs)
      (fold (\<lambda>st. fetch_sub (fst st) (snd st)) (map (\<lambda>a. (a, sz)) as) (heap s))\<rparr>)"
    by simp
  show ?thesis
    by (simp only: first second Option.bind.simps fold_shuffles [OF assms(3)])
qed

text \<open>
  C7. On a chain that ends in \<open>nullptr\<close>, for every state of the trackers (over the limit
  or not): \<open>free\<close> returns, and the state it returns is the old one with the size
  subtracted from \<open>amount\<close> in every tracker of the chain and in no other; peak, limit and
  the count of random values drawn are as before. As a call it returns normally, without a
  raised condition. It does not read \<open>limit\<close> or \<open>fault_probability\<close>: giving these fields
  any other values, in any trackers, before the call is the same as giving them after it.
  Every call other than \<open>alloc\<close> and \<open>realloc\<close> (so \<open>free\<close>, \<open>reset\<close>, \<open>get\<close>, \<open>getPeak\<close>
  and the five setters) returns normally. The subtraction is atomic: \<open>free\<close> is one
  \<open>fetch_sub\<close> step on each tracker of its chain, and when two threads call \<open>free\<close> at
  once, whatever the order in which their steps interleave, the counters end as if one call
  had run after the other (no update is lost).
\<close>

theorem free_never_fails:
  assumes "chain (heap s) as (Some this)" and "chain (heap s) bs (Some other)"
  shows "free this sz s =
      Some (s\<lparr>heap := (\<lambda>b. if b \<in> set as then (heap s b)\<lparr>amount := amount (heap s b) - sz\<rparr>
                           else heap s b)\<rparr>) \<and>
    invoke drand48 this (free_call sz) s =
      Some (Inr None,
            s\<lparr>heap := (\<lambda>b. if b \<in> set as then (heap s b)\<lparr>amount := amount (heap s b) - sz\<rparr>
                           else heap s b)\<rparr>) \<and>
    (\<forall>L P. free this sz (s\<lparr>heap := (\<lambda>b. (heap s b)\<lparr>limit := L b, fault_probability := P b\<rparr>)\<rparr>)
       = map_option
           (\<lambda>s'. s'\<lparr>heap := (\<lambda>b. (heap s' b)\<lparr>limit := L b, fault_probability := P b\<rparr>)\<rparr>)
           (free this sz s)) \<and>
    (\<forall>m. (\<forall>n. m \<noteq> alloc_call n) \<and> (\<forall>old_size new_size. m \<noteq> realloc_call old_size new_size) \<longrightarrow>
       (\<exists>v s'. invoke drand48 this m s = Some (Inr v, s'))) \<and>
    free this sz s =
      Some (s\<lparr>heap := fold (\<lambda>st. fetch_sub (fst st) (snd st)) (map (\<lambda>a. (a, sz)) as) (heap s)\<rparr>) \<and>
    (\<forall>zs \<in> shuffles (map (\<lambda>a. (a, sz)) as) (map (\<lambda>b. (b, sz')) bs).
       Some (s\<lparr>heap := fold (\<lambda>st. fetch_sub (fst st) (snd st)) zs (heap s)\<rparr>)
       = Option.bind (free this sz s) (free other sz'))"
proof (intro conjI allI ballI impI)
  show "free this sz s =
      Some (s\<lparr>heap := (\<lambda>b. if b \<in> set as then (heap s b)\<lparr>amount := amount (heap s b) - sz\<rparr>
                           else heap s b)\<rparr>)"
    using assms(1) by (rule free_returns)
  then show "invoke drand48 this (free_call sz) s =
      Some (Inr None,
            s\<lparr>heap := (\<lambda>b. if b \<in> set as then (heap s b)\<lparr>amount := amount (heap s b) - sz\<rparr>
                           else heap s b)\<rparr>)"
    by simp
  show "free this sz (s\<lparr>heap := (\<lambda>b. (heap s b)\<lparr>limit := L b, fault_probability := P b\<rparr>)\<rparr>)
       = map_option
           (\<lambda>s'. s'\<lparr>heap := (\<lambda>b. (heap s' b)\<lparr>limit := L b, fault_probability := P b\<rparr>)\<rparr>)
           (free this sz s)" for L P
    using assms(1) by (rule free_ignores_settings)
  show "\<exists>v s'. invoke drand48 this m s = Some (Inr v, s')"
    if "(\<forall>n. m \<noteq> alloc_call n) \<and> (\<forall>old_size new_size. m \<noteq> realloc_call old_size new_size)" for m
    using that invoke_returns [OF assms(1), of m drand48] by simp
  show "free this sz s =
      Some (s\<lparr>heap := fold (\<lambda>st. fetch_sub (fst st) (snd st)) (map (\<lambda>a. (a, sz)) as) (heap s)\<rparr>)"
    using assms(1) by (rule free_steps)
  show "Some (s\<lparr>heap := fold (\<lambda>st. fetch_sub (fst st) (snd st)) zs (heap s)\<rparr>)
       = Option.bind (free this sz s) (free other sz')"
    if "zs \<in> shuffles (map (\<lambda>a. (a, sz)) as) (map (\<lambda>b. (b, sz')) bs)" for zs
    using free_twice [OF assms that] by simp
qed

theorem free_never_fails_witness:
  "chain ((\<lambda>_. MemoryTracker0 0)
      (1 := \<lparr>amount = 1100, peak = 1100, limit = 1000, fault_probability = 1,
              next_tracker = Some 2, metric = 0, description = None\<rparr>)) [1, 2] (Some 1) \<and>
   chain ((\<lambda>_. MemoryTracker0 0)
      (1 := \<lparr>amount = 1100, peak = 1100, limit = 1000, fault_probability = 1,
              next_tracker = Some 2, metric = 0, description = None\<rparr>)) [2] (Some 2) \<and>
   (\<exists>s'. free 1 100
      \<lparr>heap = (\<lambda>_. MemoryTracker0 0)
         (1 := \<lparr>amount = 1100, peak = 1100, limit = 1000, fault_probability = 1,
                 next_tracker = Some 2, metric = 0, description = None\<rparr>),
       drawn = 0\<rparr> = Some s' \<and>
      get (heap s' 1) = 1000 \<and> getPeak (heap s' 1) = 1100 \<and> get (heap s' 2) = - 100 \<and>
      get (heap s' 3) = 0 \<and> drawn s' = 0)"
proof -
  let ?s = "\<lparr>heap = (\<lambda>_. MemoryTracker0 0)
         (1 := \<lparr>amount = 1100, peak = 1100, limit = 1000, fault_probability = 1,
                 next_tracker = Some 2, metric = 0, description = None\<rparr>),
       drawn = 0\<rparr>"
  have ch1: "chain (heap ?s) [1, 2] (Some 1)" by (simp add: MemoryTracker0_def)
  have ch2: "chain (heap ?s) [2] (Some 2)" by (simp add: MemoryTracker0_def)
  from free_never_fails [OF ch1 ch2, THEN conjunct1, of 100] ch1 ch2 show ?thesis
    by (simp add: get_def getPeak_def MemoryTracker0_def)
qed

section \<open>Construction\<close>

lemma perform_unconfigured:
  assumes "limit (heap s this) = 0" and "fault_probability (heap s this) = 0"
    and "next_tracker (heap s this) = None"
  shows "\<exists>s'. perform drand48 this c s = Some (Inr (), s') \<and>
      limit (heap s' this) = 0 \<and> fault_probability (heap s' this) = 0 \<and>
      next_tracker (heap s' this) = None"
proof (cases c)
  case (Alloc n)
  show ?thesis
    unfolding Alloc using assms
    by (simp add: alloc_unfold unlimited_quiet)
next
  case (Free n)
  have "chain (heap s) [this] (Some this)" using assms(3) by simp
  from free_returns [OF this, of n] show ?thesis
    unfolding Free using assms by simp
qed

lemma run_unconfigured:
  "limit (heap s this) = 0 \<Longrightarrow> fault_probability (heap s this) = 0 \<Longrightarrow>
   next_tracker (heap s this) = None \<Longrightarrow>
   \<exists>rs s'. run drand48 this cs s = Some (rs, s') \<and> (\<forall>r \<in> set rs. r = Inr ())"
proof (induction cs arbitrary: s)
  case Nil
  show ?case by simp
next
  case (Cons c cs)
  from perform_unconfigured [OF Cons.prems, of drand48 c] obtain s1 where
    step: "perform drand48 this c s = Some (Inr (), s1)"
    and inv: "limit (heap s1 this) = 0" "fault_probability (heap s1 this) = 0"
      "next_tracker (heap s1 this) = None"
    by (elim exE conjE) (rule that)
  from Cons.IH [OF inv] obtain rs s' where
    rest: "run drand48 this cs s1 = Some (rs, s')" and ok: "\<forall>r \<in> set rs. r = Inr ()"
    by (elim exE conjE) (rule that)
  have "run drand48 this (c # cs) s = Some (Inr () # rs, s')"
    by (simp add: step rest)
  with ok show ?case by simp
qed

text \<open>
  C10. A default-constructed tracker has \<open>amount\<close>, \<open>peak\<close>, \<open>limit\<close> and
  \<open>fault_probability\<close> zero and no \<open>next\<close>; the one-argument constructor gives the same
  tracker with the limit set. On a default-constructed tracker \<open>alloc\<close> returns without
  raising, for every size, and so does every call of every sequence of \<open>alloc\<close> and
  \<open>free\<close> calls.
\<close>

theorem default_tracker:
  "amount (MemoryTracker0 m) = 0 \<and> peak (MemoryTracker0 m) = 0 \<and>
   limit (MemoryTracker0 m) = 0 \<and> fault_probability (MemoryTracker0 m) = 0 \<and>
   next_tracker (MemoryTracker0 m) = None \<and>
   MemoryTracker1 m limit' = setLimit limit' (MemoryTracker0 m) \<and>
   (heap s this = MemoryTracker0 m \<longrightarrow>
      (\<exists>s'. alloc drand48 this sz s = Some (Inr (), s')) \<and>
      (\<exists>rs s'. run drand48 this cs s = Some (rs, s') \<and> (\<forall>r \<in> set rs. r = Inr ())))"
proof -
  have "\<exists>s'. alloc drand48 this sz s = Some (Inr (), s')"
    if "heap s this = MemoryTracker0 m"
    using that by (simp add: alloc_unfold unlimited_quiet MemoryTracker0_def)
  moreover have "\<exists>rs s'. run drand48 this cs s = Some (rs, s') \<and> (\<forall>r \<in> set rs. r = Inr ())"
    if "heap s this = MemoryTracker0 m"
    using that run_unconfigured [of s this drand48 cs] by (simp add: MemoryTracker0_def)
  ultimately show ?thesis
    by (simp add: MemoryTracker0_def MemoryTracker1_def setLimit_def)
qed

theorem default_tracker_witness:
  "heap \<lparr>heap = (\<lambda>_. MemoryTracker0 0), drawn = 0\<rparr> 1 = MemoryTracker0 0 \<and>
   (\<exists>s'. alloc (\<lambda>_. 0) 1 (2 ^ 62) \<lparr>heap = (\<lambda>_. MemoryTracker0 0), drawn = 0\<rparr> = Some (Inr (), s')) \<and>
   (\<exists>rs s'. run (\<lambda>_. 0) 1 [Alloc 600, Alloc 500, Free 500]
        \<lparr>heap = (\<lambda>_. MemoryTracker0 0), drawn = 0\<rparr> = Some (rs, s') \<and>
      (\<forall>r \<in> set rs. r = Inr ()))"
  using default_tracker [of 0 0 "\<lparr>heap = (\<lambda>_. MemoryTracker0 0), drawn = 0\<rparr>" 1 "\<lambda>_. 0" "2 ^ 62"
      "[Alloc 600, Alloc 500, Free 500]"]
  by simp

section \<open>Counters over a sequence of calls\<close>

lemma perform_counts:
  assumes "chain (heap s) as (Some this)"
  shows "\<exists>r s'. perform drand48 this c s = Some (r, s') \<and>
      chain (heap s') as (Some this) \<and>
      amount (heap s' this) = amount (heap s this) + delta c \<and>
      peak (heap s' this) =
        (case c of
           Alloc n \<Rightarrow> if peak (heap s this) <s amount (heap s this) + n
                      then amount (heap s this) + n else peak (heap s this)
         | Free n \<Rightarrow> peak (heap s this))"
proof (cases c)
  case (Alloc n)
  from assms have head: "this \<in> set as" by (cases as) simp_all
  from alloc_returns [OF assms, of drand48 n] obtain r s' where
    ret: "alloc drand48 this n s = Some (r, s')"
    and eff: "heap s' = (\<lambda>b. if b \<in> set as then account n (heap s b) else heap s b)"
    by (elim exE conjE) (rule that)
  have "chain (heap s') as (Some this)"
    using assms chain_cong_next [of "heap s'" "heap s" as "Some this"]
    by (simp add: eff)
  moreover have "amount (heap s' this) = amount (heap s this) + n"
    using head by (simp add: eff)
  moreover have "peak (heap s' this) =
      (if peak (heap s this) <s amount (heap s this) + n
       then amount (heap s this) + n else peak (heap s this))"
    using head by (simp add: eff account_def Let_def)
  ultimately show ?thesis
    unfolding Alloc using ret by simp
next
  case (Free n)
  from assms have head: "this \<in> set as" by (cases as) simp_all
  note ret = free_returns [OF assms, of n]
  have "chain (\<lambda>b. if b \<in> set as then (heap s b)\<lparr>amount := amount (heap s b) - n\<rparr> else heap s b)
      as (Some this)"
    using assms
      chain_cong_next [of "\<lambda>b. if b \<in> set as then (heap s b)\<lparr>amount := amount (heap s b) - n\<rparr>
        else heap s b" "heap s" as "Some this"]
    by simp
  then show ?thesis
    unfolding Free using head by (simp add: ret)
qed

lemma run_amount:
  "chain (heap s) as (Some this) \<Longrightarrow>
   \<exists>rs s'. run drand48 this cs s = Some (rs, s') \<and>
     amount (heap s' this) = amount (heap s this) + sum_list (map delta cs)"
proof (induction cs arbitrary: s)
  case Nil
  show ?case by simp
next
  case (Cons c cs)
  from perform_counts [OF Cons.prems, of drand48 c] obtain r s1 where
    step: "perform drand48 this c s = Some (r, s1)"
    and ch: "chain (heap s1) as (Some this)"
    and am: "amount (heap s1 this) = amount (heap s this) + delta c"
    by (elim exE conjE) (rule that)
  from Cons.IH [OF ch] obtain rs s' where
    rest: "run drand48 this cs s1 = Some (rs, s')"
    and total: "amount (heap s' this) = amount (heap s1 this) + sum_list (map delta cs)"
    by (elim exE conjE) (rule that)
  have "run drand48 this (c # cs) s = Some (r # rs, s')"
    by (simp add: step rest)
  moreover have "amount (heap s' this) = amount (heap s this) + sum_list (map delta (c # cs))"
    by (simp add: total am add.assoc)
  ultimately show ?case by (intro exI [of _ "r # rs"] exI [of _ s'] conjI)
qed

lemma sint_step:
  fixes a n :: Int64
  assumes "- (2 ^ 63) \<le> sint a + idelta c" and "sint a + idelta c < 2 ^ 63"
  shows "sint (a + delta c) = sint a + idelta c"
proof (cases c)
  case (Alloc n)
  have "a + n = word_of_int (sint a + sint n)" by simp
  then have "sint (a + n) = signed_take_bit 63 (sint a + sint n)"
    by (simp only: sint_sbintrunc') simp
  with assms show ?thesis
    unfolding Alloc by (simp add: signed_take_bit_int_eq_self)
next
  case (Free n)
  have "a - n = word_of_int (sint a - sint n)" by simp
  then have "sint (a - n) = signed_take_bit 63 (sint a - sint n)"
    by (simp only: sint_sbintrunc') simp
  with assms show ?thesis
    unfolding Free by (simp add: signed_take_bit_int_eq_self)
qed

lemma Max_prefix_step:
  fixes f :: "nat \<Rightarrow> int"
  shows "Max (f ` {0..Suc n}) = max (f 0) (Max ((\<lambda>k. f (Suc k)) ` {0..n}))"
proof -
  have "f ` {0..Suc n} = f ` insert 0 (Suc ` {0..n})"
    by (simp only: atLeast0_atMost_Suc_eq_insert_0)
  also have "\<dots> = insert (f 0) ((\<lambda>k. f (Suc k)) ` {0..n})"
    by (simp only: image_insert image_image)
  finally show ?thesis by simp
qed

lemma run_peak:
  assumes "chain (heap s) as (Some this)"
    and "\<forall>n. Free n \<in> set cs \<longrightarrow> 0 \<le> sint n"
    and "\<forall>k \<le> length cs. - (2 ^ 63) \<le> sint (amount (heap s this)) + sum_list (take k (map idelta cs))
          \<and> sint (amount (heap s this)) + sum_list (take k (map idelta cs)) < 2 ^ 63"
    and "sint (amount (heap s this)) \<le> sint (peak (heap s this))"
  shows "\<exists>rs s'. run drand48 this cs s = Some (rs, s') \<and>
      sint (amount (heap s' this)) = sint (amount (heap s this)) + sum_list (map idelta cs) \<and>
      sint (peak (heap s' this)) =
        max (sint (peak (heap s this)))
          (Max ((\<lambda>k. sint (amount (heap s this)) + sum_list (take k (map idelta cs))) ` {0..length cs}))"
  using assms
proof (induction cs arbitrary: s)
  case Nil
  then show ?case by simp
next
  case (Cons c cs)
  let ?a = "sint (amount (heap s this))" and ?p = "sint (peak (heap s this))"
  from perform_counts [OF Cons.prems(1), of drand48 c] obtain r s1 where
    step: "perform drand48 this c s = Some (r, s1)"
    and ch: "chain (heap s1) as (Some this)"
    and am: "amount (heap s1 this) = amount (heap s this) + delta c"
    and pk: "peak (heap s1 this) =
        (case c of
           Alloc n \<Rightarrow> if peak (heap s this) <s amount (heap s this) + n
                      then amount (heap s this) + n else peak (heap s this)
         | Free n \<Rightarrow> peak (heap s this))"
    by (elim exE conjE) (rule that)
  from Cons.prems(3) have "1 \<le> length (c # cs) \<longrightarrow>
      - (2 ^ 63) \<le> ?a + sum_list (take 1 (map idelta (c # cs)))
      \<and> ?a + sum_list (take 1 (map idelta (c # cs))) < 2 ^ 63"
    by blast
  then have range1: "- (2 ^ 63) \<le> ?a + idelta c" "?a + idelta c < 2 ^ 63" by simp_all
  have a1: "sint (amount (heap s1 this)) = ?a + idelta c"
    unfolding am using range1 by (rule sint_step)
  have p1: "sint (peak (heap s1 this)) = max ?p (?a + idelta c)"
  proof (cases c)
    case (Alloc n)
    then show ?thesis
      using a1 am pk by (auto simp: word_sless_alt)
  next
    case (Free n)
    with Cons.prems(2) have "0 \<le> sint n" by simp
    with Free Cons.prems(4) pk show ?thesis by simp
  qed
  have frees: "\<forall>n. Free n \<in> set cs \<longrightarrow> 0 \<le> sint n"
    using Cons.prems(2) by simp
  have ranges: "\<forall>k \<le> length cs.
      - (2 ^ 63) \<le> sint (amount (heap s1 this)) + sum_list (take k (map idelta cs))
      \<and> sint (amount (heap s1 this)) + sum_list (take k (map idelta cs)) < 2 ^ 63"
  proof (intro allI impI)
    fix k assume "k \<le> length cs"
    then have "Suc k \<le> length (c # cs)" by simp
    with Cons.prems(3) have "- (2 ^ 63) \<le> ?a + sum_list (take (Suc k) (map idelta (c # cs)))
      \<and> ?a + sum_list (take (Suc k) (map idelta (c # cs))) < 2 ^ 63"
      by blast
    then show "- (2 ^ 63) \<le> sint (amount (heap s1 this)) + sum_list (take k (map idelta cs))
      \<and> sint (amount (heap s1 this)) + sum_list (take k (map idelta cs)) < 2 ^ 63"
      by (simp add: a1 add.assoc)
  qed
  have below: "sint (amount (heap s1 this)) \<le> sint (peak (heap s1 this))"
    by (simp add: a1 p1)
  from Cons.IH [OF ch frees ranges below] obtain rs s' where
    rest: "run drand48 this cs s1 = Some (rs, s')"
    and total: "sint (amount (heap s' this)) = sint (amount (heap s1 this)) + sum_list (map idelta cs)"
    and top: "sint (peak (heap s' this)) =
        max (sint (peak (heap s1 this)))
          (Max ((\<lambda>k. sint (amount (heap s1 this)) + sum_list (take k (map idelta cs))) ` {0..length cs}))"
    by (elim exE conjE) (rule that)
  let ?M = "Max ((\<lambda>k. ?a + idelta c + sum_list (take k (map idelta cs))) ` {0..length cs})"
  have first: "?a + idelta c \<le> ?M"
    by (rule Max_ge) (auto intro!: image_eqI [where x = 0])
  have "run drand48 this (c # cs) s = Some (r # rs, s')"
    by (simp add: step rest)
  moreover have "sint (amount (heap s' this)) = ?a + sum_list (map idelta (c # cs))"
    by (simp add: total a1)
  moreover have "sint (peak (heap s' this)) =
        max ?p (Max ((\<lambda>k. ?a + sum_list (take k (map idelta (c # cs)))) ` {0..length (c # cs)}))"
  proof -
    have "Max ((\<lambda>k. ?a + sum_list (take k (map idelta (c # cs)))) ` {0..length (c # cs)})
        = max ?a ?M"
      using Max_prefix_step [of "\<lambda>k. ?a + sum_list (take k (map idelta (c # cs)))" "length cs"]
      by (simp add: add.assoc)
    moreover have "sint (peak (heap s' this)) = max (max ?p (?a + idelta c)) ?M"
      by (simp add: top p1 a1)
    ultimately show ?thesis
      using first Cons.prems(4) by simp
  qed
  ultimately show ?case by (intro exI [of _ "r # rs"] exI [of _ s'] conjI)
qed

text \<open>
  C1, as amended. A tracker with zero counters, no limit and no fault injection, at the
  head of a chain that ends in \<open>nullptr\<close>, receives a sequence of \<open>alloc\<close> and \<open>free\<close>
  calls in which no freed size is negative and the running total of the deltas stays within
  the signed 64-bit range. Then every call returns, \<open>get\<close> is the sum of the deltas (it is
  their sum in 64-bit arithmetic in any case), and \<open>getPeak\<close> is the largest sum of a prefix
  of the deltas, the empty prefix (0, the initial peak) included. If the tracker has no
  \<open>next\<close>, no call of the sequence raises.
\<close>

theorem counters_track_deltas:
  assumes "chain (heap s) as (Some this)"
    and "amount (heap s this) = 0" and "peak (heap s this) = 0"
    and "limit (heap s this) = 0" and "fault_probability (heap s this) = 0"
    and "\<forall>n. Free n \<in> set cs \<longrightarrow> 0 \<le> sint n"
    and "\<forall>k \<le> length cs. - (2 ^ 63) \<le> sum_list (take k (map idelta cs))
          \<and> sum_list (take k (map idelta cs)) < 2 ^ 63"
  shows "\<exists>rs s'. run drand48 this cs s = Some (rs, s') \<and>
      get (heap s' this) = sum_list (map delta cs) \<and>
      sint (get (heap s' this)) = sum_list (map idelta cs) \<and>
      sint (getPeak (heap s' this)) =
        Max ((\<lambda>k. sum_list (take k (map idelta cs))) ` {0..length cs}) \<and>
      (next_tracker (heap s this) = None \<longrightarrow> (\<forall>r \<in> set rs. r = Inr ()))"
proof -
  from run_amount [OF assms(1), of drand48 cs] obtain rs s' where
    ret: "run drand48 this cs s = Some (rs, s')"
    and words: "amount (heap s' this) = amount (heap s this) + sum_list (map delta cs)"
    by (elim exE conjE) (rule that)
  have ranges: "\<forall>k \<le> length cs.
      - (2 ^ 63) \<le> sint (amount (heap s this)) + sum_list (take k (map idelta cs))
      \<and> sint (amount (heap s this)) + sum_list (take k (map idelta cs)) < 2 ^ 63"
    using assms(7) by (simp add: assms(2))
  have below: "sint (amount (heap s this)) \<le> sint (peak (heap s this))"
    by (simp add: assms(2,3))
  from run_peak [OF assms(1) assms(6) ranges below, of drand48] ret have
    total: "sint (amount (heap s' this)) = sum_list (map idelta cs)"
    and top: "sint (peak (heap s' this)) =
        max 0 (Max ((\<lambda>k. sum_list (take k (map idelta cs))) ` {0..length cs}))"
    by (simp_all add: assms(2,3))
  have "(0::int) \<le> Max ((\<lambda>k. sum_list (take k (map idelta cs))) ` {0..length cs})"
    by (rule Max_ge) (auto intro!: image_eqI [where x = 0])
  with top have peak: "sint (peak (heap s' this)) =
      Max ((\<lambda>k. sum_list (take k (map idelta cs))) ` {0..length cs})"
    by simp
  have calm: "next_tracker (heap s this) = None \<longrightarrow> (\<forall>r \<in> set rs. r = Inr ())"
  proof
    assume "next_tracker (heap s this) = None"
    from run_unconfigured [OF assms(4,5) this, of drand48 cs] ret
    show "\<forall>r \<in> set rs. r = Inr ()" by simp
  qed
  from ret words total peak calm show ?thesis
    unfolding get_def getPeak_def assms(2)
    by (intro exI [of _ rs] exI [of _ s'] conjI) simp_all
qed

theorem counters_track_deltas_witness:
  "chain (\<lambda>_. MemoryTracker0 0) [1] (Some 1) \<and>
   (\<exists>rs s'. run (\<lambda>_. 0) 1 [Alloc 600, Alloc 500, Free 500]
        \<lparr>heap = (\<lambda>_. MemoryTracker0 0), drawn = 0\<rparr> = Some (rs, s') \<and>
      get (heap s' 1) = 600 \<and> sint (get (heap s' 1)) = 600 \<and>
      sint (getPeak (heap s' 1)) = 1100 \<and> (\<forall>r \<in> set rs. r = Inr ()))"
proof -
  have ch: "chain (heap \<lparr>heap = (\<lambda>_. MemoryTracker0 0), drawn = 0\<rparr>) [1] (Some 1)"
    by (simp add: MemoryTracker0_def)
  have sizes: "\<forall>n. Free n \<in> set [Alloc 600, Alloc 500, Free 500] \<longrightarrow> 0 \<le> sint n"
    by simp
  have ranges: "\<forall>k \<le> length [Alloc 600, Alloc 500, Free 500].
      - (2 ^ 63) \<le> sum_list (take k (map idelta [Alloc 600, Alloc 500, Free 500]))
      \<and> sum_list (take k (map idelta [Alloc 600, Alloc 500, Free 500])) < 2 ^ 63"
    by (simp add: take_Cons')
  from counters_track_deltas [OF ch _ _ _ _ sizes ranges, of "\<lambda>_. 0"] show ?thesis
    using ch by (simp add: MemoryTracker0_def atLeastAtMostSuc_conv take_Cons')
qed

text \<open>
  C1 as stated, for every sequence of calls, fails. On a default-constructed tracker
  \<open>free(-5)\<close> leaves \<open>get\<close> at 5 and \<open>getPeak\<close> at 0, below the prefix sum 5: \<open>free\<close> never
  advances the peak. And \<open>alloc(2\<^sup>6\<^sup>3 - 1)\<close> followed by \<open>alloc(1)\<close> wraps around: \<open>get\<close> is
  \<open>-2\<^sup>6\<^sup>3\<close>, the sum of the deltas \<open>2\<^sup>6\<^sup>3\<close>.
\<close>

theorem counters_counterexample:
  "run no_faults 1 [Free (- 5)] \<lparr>heap = default_store 0, drawn = 0\<rparr>
     = Some ([Inr ()],
         \<lparr>heap = (default_store 0)((1::nat) := (MemoryTracker0 0)\<lparr>amount := 5\<rparr>), drawn = 0\<rparr>) \<and>
   get ((MemoryTracker0 0)\<lparr>amount := 5\<rparr>) = 5 \<and>
   getPeak ((MemoryTracker0 0)\<lparr>amount := 5\<rparr>) = 0 \<and>
   sum_list (map idelta (take 1 [Free (- 5)])) = 5 \<and>
   sint (getPeak ((MemoryTracker0 0)\<lparr>amount := 5\<rparr>)) < sum_list (map idelta (take 1 [Free (- 5)])) \<and>
   run no_faults 1 [Alloc (2 ^ 63 - 1), Alloc 1] \<lparr>heap = default_store 0, drawn = 0\<rparr>
     = Some ([Inr (), Inr ()],
         \<lparr>heap = (default_store 0)
            ((1::nat) := (MemoryTracker0 0)\<lparr>amount := 2 ^ 63, peak := 2 ^ 63 - 1\<rparr>),
          drawn = 0\<rparr>) \<and>
   sint (get ((MemoryTracker0 0)\<lparr>amount := 2 ^ 63, peak := 2 ^ 63 - 1\<rparr>)) = - (2 ^ 63) \<and>
   sum_list (map idelta [Alloc (2 ^ 63 - 1), Alloc 1]) = 2 ^ 63 \<and>
   sint (get ((MemoryTracker0 0)\<lparr>amount := 2 ^ 63, peak := 2 ^ 63 - 1\<rparr>))
     \<noteq> sum_list (map idelta [Alloc (2 ^ 63 - 1), Alloc 1])"
  by (simp add: alloc_unfold free_single default_store_def no_faults_def MemoryTracker0_def
      enforce_def over_limit_def account_def get_def getPeak_def word_sless_alt)

end
